theory Spec2Isabelle
  imports Main
begin

section \<open>Data model\<close>

text \<open>
  The records follow the fields that \<open>main.ts\<close> reads. A field that the API types as
  \<open>string | null\<close> is a \<open>string option\<close>. \<open>created_at\<close> holds the time value
  \<open>new Date(created_at).getTime()\<close> of the run: an integer number of milliseconds.
\<close>

record workflow_run =
  run_id :: nat
  head_sha :: string
  head_branch :: "string option"
  conclusion :: "string option"
  created_at :: int
  html_url :: string

record job_rec =
  job_name :: string
  job_conclusion :: "string option"

text \<open>The inputs read by the selection (\<open>core.getInput\<close> gives the empty string for an
  input that is not set).\<close>

record inputs =
  branch :: string
  job :: string
  verify :: bool

datatype log_entry = Debug string | Info string | Warning string

text \<open>
  The collaborators. \<open>execAsync k\<close> is what the \<open>k\<close>-th invocation of the history-listing
  command gives: \<open>Inr stdout\<close>, or \<open>Inl message\<close> when the promise rejects.
  \<open>listJobsForWorkflowRun id\<close> is \<open>Inr jobs\<close> (the field \<open>data.jobs\<close>), or \<open>Inl message\<close>
  when the request throws.
\<close>

record env =
  execAsync :: "nat \<Rightarrow> string + string"
  listJobsForWorkflowRun :: "nat \<Rightarrow> string + job_rec list"

text \<open>
  The mutable state: the module-level cache \<open>repoShas\<close> (\<open>None\<close> is \<open>undefined\<close>), the
  locals \<open>lastSha\<close> and \<open>sha\<close> of \<open>run\<close>, the messages logged so far, and the number of
  times the history-listing command has been invoked.
\<close>

record state =
  repoShas :: "string list option"
  lastSha :: "string option"
  sha :: "string option"
  logs :: "log_entry list"
  exec_calls :: nat

datatype outcome = SetOutput "string option" | SetFailed string

datatype verdict = Continue | Break | Raise string

datatype completion = Completed state | Thrown string state

section \<open>Strings, truthiness and logging\<close>

definition truthy :: "string \<Rightarrow> bool" where
  "truthy s = (s \<noteq> [])"

definition falsy_opt :: "string option \<Rightarrow> bool" where
  "falsy_opt v = (case v of None \<Rightarrow> True | Some s \<Rightarrow> s = [])"

definition show_null :: "string option \<Rightarrow> string" where
  "show_null v = (case v of None \<Rightarrow> ''null'' | Some s \<Rightarrow> s)"

fun show_nat :: "nat \<Rightarrow> string" where
  "show_nat n =
     (if n < 10 then [''0123456789'' ! n]
      else show_nat (n div 10) @ [''0123456789'' ! (n mod 10)])"

declare show_nat.simps [simp del]

text \<open>White space removed by \<open>String.prototype.trim\<close>, among the code units below 256.\<close>

definition is_ws :: "char \<Rightarrow> bool" where
  "is_ws c = (c \<in> set [CHR 0x09, CHR 0x0A, CHR 0x0B, CHR 0x0C, CHR 0x0D, CHR 0x20, CHR 0xA0])"

definition trim :: "string \<Rightarrow> string" where
  "trim s = rev (dropWhile is_ws (rev (dropWhile is_ws s)))"

fun split_on :: "char \<Rightarrow> string \<Rightarrow> string list" where
  "split_on c [] = [[]]"
| "split_on c (x # xs) =
     (if x = c then [] # split_on c xs
      else (case split_on c xs of [] \<Rightarrow> [[x]] | w # ws \<Rightarrow> (x # w) # ws))"

definition debug :: "string \<Rightarrow> state \<Rightarrow> state" where
  "debug m st = st\<lparr>logs := logs st @ [Debug m]\<rparr>"

definition info :: "string \<Rightarrow> state \<Rightarrow> state" where
  "info m st = st\<lparr>logs := logs st @ [Info m]\<rparr>"

definition warning :: "string \<Rightarrow> state \<Rightarrow> state" where
  "warning m st = st\<lparr>logs := logs st @ [Warning m]\<rparr>"

section \<open>The commit verifier\<close>

definition cmd :: string where
  "cmd = ''git log --format=format:%H''"

definition verifyCommit :: "env \<Rightarrow> string \<Rightarrow> state \<Rightarrow> bool \<times> state" where
  "verifyCommit e s st =
     (case repoShas st of
        Some shas \<Rightarrow> (s \<in> set shas, info (''Looking for SHA '' @ s @ '' in repo SHAs'') st)
      | None \<Rightarrow>
          (let st1 = info (''Getting list of SHAs in repo via command '' @ [CHR 0x22] @ cmd @ [CHR 0x22]) st;
               st2 = st1\<lparr>exec_calls := exec_calls st1 + 1\<rparr>
           in case execAsync e (exec_calls st1) of
                Inr stdout \<Rightarrow>
                  (let shas = split_on (CHR 0x0A) (trim stdout);
                       st3 = st2\<lparr>repoShas := Some shas\<rparr>
                   in (s \<in> set shas, info (''Looking for SHA '' @ s @ '' in repo SHAs'') st3))
              | Inl msg \<Rightarrow>
                  (False,
                   warning (''Error while attempting to get list of SHAs: '' @ msg)
                     (st2\<lparr>repoShas := Some []\<rparr>))))"

section \<open>Filtering and ranking\<close>

definition keep :: "inputs \<Rightarrow> workflow_run \<Rightarrow> bool" where
  "keep inp x =
     ((\<not> truthy (branch inp) \<or> head_branch x = Some (branch inp)) \<and>
      (truthy (job inp) \<or> conclusion x = Some ''success''))"

definition compareFn :: "workflow_run \<Rightarrow> workflow_run \<Rightarrow> int" where
  "compareFn r1 r2 = created_at r2 - created_at r1"

text \<open>
  \<open>Array.prototype.sort\<close> is a stable sort by the comparator: an element goes before
  another when the comparator is negative, and elements that compare equal keep
  their order. It is modelled as insertion from the right.
\<close>

fun insert_by :: "('a \<Rightarrow> 'a \<Rightarrow> int) \<Rightarrow> 'a \<Rightarrow> 'a list \<Rightarrow> 'a list" where
  "insert_by c x [] = [x]"
| "insert_by c x (y # ys) = (if c x y \<le> 0 then x # y # ys else y # insert_by c x ys)"

fun sort_by :: "('a \<Rightarrow> 'a \<Rightarrow> int) \<Rightarrow> 'a list \<Rightarrow> 'a list" where
  "sort_by c [] = []"
| "sort_by c (x # xs) = insert_by c x (sort_by c xs)"

definition rank_runs :: "inputs \<Rightarrow> workflow_run list \<Rightarrow> workflow_run list" where
  "rank_runs inp workflow_runs = sort_by compareFn (filter (keep inp) workflow_runs)"

section \<open>The scan\<close>

fun foundJob :: "string \<Rightarrow> job_rec list \<Rightarrow> state \<Rightarrow> bool \<times> state" where
  "foundJob j [] st = (False, st)"
| "foundJob j (x # xs) st =
     (let st1 = debug ''Checking job: [object Object]'' st
      in if job_name x = j \<and> job_conclusion x = Some ''success'' then (True, st1)
         else foundJob j xs st1)"

definition accept :: "inputs \<Rightarrow> workflow_run \<Rightarrow> state \<Rightarrow> verdict \<times> state" where
  "accept inp r st =
     (Break,
      (info (if verify inp
             then ''Commit '' @ head_sha r @ '' from run '' @ html_url r @
                  '' verified as last successful CI run.''
             else ''Using '' @ head_sha r @ '' from run '' @ html_url r @
                  '' as last successful CI run.'') st)\<lparr>sha := Some (head_sha r)\<rparr>)"

definition check_job :: "inputs \<Rightarrow> env \<Rightarrow> workflow_run \<Rightarrow> state \<Rightarrow> verdict \<times> state" where
  "check_job inp e r st =
     (if truthy (job inp) then
        (case listJobsForWorkflowRun e (run_id r) of
           Inl msg \<Rightarrow> (Raise msg, st)
         | Inr jobs \<Rightarrow>
             (case foundJob (job inp) jobs st of
                (found, st1) \<Rightarrow> if \<not> found then (Continue, st1) else accept inp r st1))
      else accept inp r st)"

definition check_verify :: "inputs \<Rightarrow> env \<Rightarrow> workflow_run \<Rightarrow> state \<Rightarrow> verdict \<times> state" where
  "check_verify inp e r st =
     (if verify inp then
        (case verifyCommit e (head_sha r) st of
           (ok, st1) \<Rightarrow>
             if \<not> ok
             then (Continue, warning (''Failed to verify commit '' @ head_sha r @ ''. Skipping.'') st1)
             else check_job inp e r st1)
      else check_job inp e r st)"

definition enter :: "inputs \<Rightarrow> workflow_run \<Rightarrow> state \<Rightarrow> state" where
  "enter inp r st =
     debug (''Wanted branch: '' @ branch inp)
       (debug (''Run Branch: '' @ show_null (head_branch r))
          (debug (''Run SHA: '' @ head_sha r) (st\<lparr>lastSha := Some (head_sha r)\<rparr>)))"

text \<open>One iteration of the loop over \<open>runs\<close>: \<open>Continue\<close>, \<open>Break\<close>, or an exception.\<close>

definition iteration :: "inputs \<Rightarrow> env \<Rightarrow> workflow_run \<Rightarrow> state \<Rightarrow> verdict \<times> state" where
  "iteration inp e r st =
     (let st1 = enter inp r st
      in if truthy (branch inp) \<and> head_branch r \<noteq> Some (branch inp) then (Continue, st1)
         else check_verify inp e r st1)"

fun scan :: "inputs \<Rightarrow> env \<Rightarrow> workflow_run list \<Rightarrow> state \<Rightarrow> completion" where
  "scan inp e [] st = Completed st"
| "scan inp e (r # rs) st =
     (case iteration inp e r st of
        (Continue, st1) \<Rightarrow> scan inp e rs st1
      | (Break, st1) \<Rightarrow> Completed st1
      | (Raise msg, st1) \<Rightarrow> Thrown msg st1)"

definition unable :: "nat \<Rightarrow> string" where
  "unable n =
     ''Unable to determine SHA of last successful commit (possibly outside the window of '' @
     show_nat n @ '' runs). Using earliest SHA available.''"

text \<open>The declarations of \<open>lastSha\<close> and \<open>sha\<close> and the first debug message.\<close>

definition start :: "nat \<Rightarrow> state \<Rightarrow> state" where
  "start n st = debug (''Found '' @ show_nat n @ '' runs'') (st\<lparr>lastSha := None, sha := None\<rparr>)"

text \<open>
  The body of \<open>run\<close> from the filtering of \<open>response.data.workflow_runs\<close> to the end,
  with the handler of the enclosing \<open>try\<close>.
\<close>

definition run_body :: "inputs \<Rightarrow> env \<Rightarrow> workflow_run list \<Rightarrow> state \<Rightarrow> outcome \<times> state" where
  "run_body inp e workflow_runs st =
     (let runs = rank_runs inp workflow_runs;
          st0 = start (length runs) st
      in case (if length runs > 0 then scan inp e runs st0
               else Completed (info (''No previous runs found for branch '' @ branch inp @ ''.'') st0)) of
           Thrown msg st1 \<Rightarrow> (SetFailed msg, st1)
         | Completed st1 \<Rightarrow>
             (let st2 = (if falsy_opt (sha st1)
                         then (warning (unable (length runs)) st1)\<lparr>sha := lastSha st1\<rparr>
                         else st1)
              in (SetOutput (sha st2), st2)))"

section \<open>Notions used to state the properties\<close>

text \<open>
  The history that the verifier answers from in a state: the cached list when there is
  one, and otherwise what the next invocation of the history-listing command will cache.
\<close>

definition effective_history :: "env \<Rightarrow> state \<Rightarrow> string list" where
  "effective_history e st =
     (case repoShas st of
        Some shas \<Rightarrow> shas
      | None \<Rightarrow>
          (case execAsync e (exec_calls st) of
             Inl msg \<Rightarrow> []
           | Inr stdout \<Rightarrow> split_on (CHR 0x0A) (trim stdout)))"

definition job_ok :: "inputs \<Rightarrow> env \<Rightarrow> workflow_run \<Rightarrow> bool" where
  "job_ok inp e r =
     (case listJobsForWorkflowRun e (run_id r) of
        Inl msg \<Rightarrow> False
      | Inr jobs \<Rightarrow> (\<exists>x \<in> set jobs. job_name x = job inp \<and> job_conclusion x = Some ''success''))"

text \<open>A run satisfies all enabled checks, for the history \<open>h\<close>.\<close>

definition passes :: "inputs \<Rightarrow> env \<Rightarrow> string list \<Rightarrow> workflow_run \<Rightarrow> bool" where
  "passes inp e h r =
     ((\<not> truthy (branch inp) \<or> head_branch r = Some (branch inp)) \<and>
      (verify inp \<longrightarrow> head_sha r \<in> set h) \<and>
      (truthy (job inp) \<longrightarrow> job_ok inp e r))"

text \<open>Successive calls of the verifier, one for each SHA of a list.\<close>

fun verifyCommits :: "env \<Rightarrow> string list \<Rightarrow> state \<Rightarrow> bool list \<times> state" where
  "verifyCommits e [] st = ([], st)"
| "verifyCommits e (s # ss) st =
     (case verifyCommit e s st of
        (b, st1) \<Rightarrow> (case verifyCommits e ss st1 of (bs, st2) \<Rightarrow> (b # bs, st2)))"

text \<open>The scan without the branch re-check of the loop body, for comparison.\<close>

definition iteration_no_recheck :: "inputs \<Rightarrow> env \<Rightarrow> workflow_run \<Rightarrow> state \<Rightarrow> verdict \<times> state" where
  "iteration_no_recheck inp e r st = check_verify inp e r (enter inp r st)"

fun scan_no_recheck :: "inputs \<Rightarrow> env \<Rightarrow> workflow_run list \<Rightarrow> state \<Rightarrow> completion" where
  "scan_no_recheck inp e [] st = Completed st"
| "scan_no_recheck inp e (r # rs) st =
     (case iteration_no_recheck inp e r st of
        (Continue, st1) \<Rightarrow> scan_no_recheck inp e rs st1
      | (Break, st1) \<Rightarrow> Completed st1
      | (Raise msg, st1) \<Rightarrow> Thrown msg st1)"

definition run_body_no_recheck ::
  "inputs \<Rightarrow> env \<Rightarrow> workflow_run list \<Rightarrow> state \<Rightarrow> outcome \<times> state" where
  "run_body_no_recheck inp e workflow_runs st =
     (let runs = rank_runs inp workflow_runs;
          st0 = start (length runs) st
      in case (if length runs > 0 then scan_no_recheck inp e runs st0
               else Completed (info (''No previous runs found for branch '' @ branch inp @ ''.'') st0)) of
           Thrown msg st1 \<Rightarrow> (SetFailed msg, st1)
         | Completed st1 \<Rightarrow>
             (let st2 = (if falsy_opt (sha st1)
                         then (warning (unable (length runs)) st1)\<lparr>sha := lastSha st1\<rparr>
                         else st1)
              in (SetOutput (sha st2), st2)))"

section \<open>Concrete inputs\<close>

text \<open>The state when the process starts: nothing cached, nothing logged.\<close>

definition init_state :: state where
  "init_state = \<lparr>repoShas = None, lastSha = None, sha = None, logs = [], exec_calls = 0\<rparr>"

definition run_a :: workflow_run where
  "run_a = \<lparr>run_id = 1, head_sha = ''a1'', head_branch = Some ''main'',
            conclusion = Some ''failure'', created_at = 300, html_url = ''u1''\<rparr>"

definition run_b :: workflow_run where
  "run_b = \<lparr>run_id = 2, head_sha = ''b2'', head_branch = Some ''main'',
            conclusion = Some ''success'', created_at = 200, html_url = ''u2''\<rparr>"

definition run_c :: workflow_run where
  "run_c = \<lparr>run_id = 3, head_sha = ''c3'', head_branch = Some ''main'',
            conclusion = Some ''success'', created_at = 100, html_url = ''u3''\<rparr>"

definition run_d :: workflow_run where
  "run_d = \<lparr>run_id = 4, head_sha = ''d4'', head_branch = Some ''main'',
            conclusion = Some ''success'', created_at = 200, html_url = ''u4''\<rparr>"

definition jobs_of :: "nat \<Rightarrow> string + job_rec list" where
  "jobs_of i =
     (if i = 1 then Inr [\<lparr>job_name = ''build'', job_conclusion = Some ''success''\<rparr>]
      else if i = 2 then Inr [\<lparr>job_name = ''test'', job_conclusion = Some ''failure''\<rparr>,
                              \<lparr>job_name = ''test'', job_conclusion = Some ''success''\<rparr>]
      else Inr [])"

definition exec_ok :: "nat \<Rightarrow> string + string" where
  "exec_ok k = Inr ''b2\<newline>c3\<newline>''"

definition exec_fails :: "nat \<Rightarrow> string + string" where
  "exec_fails k = Inl ''not a git repository''"

definition env_ok :: env where
  "env_ok = \<lparr>execAsync = exec_ok, listJobsForWorkflowRun = jobs_of\<rparr>"

definition env_fails :: env where
  "env_fails = \<lparr>execAsync = exec_fails, listJobsForWorkflowRun = jobs_of\<rparr>"

definition no_filter :: inputs where
  "no_filter = \<lparr>branch = [], job = [], verify = False\<rparr>"

definition main_verify :: inputs where
  "main_verify = \<lparr>branch = ''main'', job = [], verify = True\<rparr>"

definition job_test :: inputs where
  "job_test = \<lparr>branch = [], job = ''test'', verify = False\<rparr>"

definition job_deploy :: inputs where
  "job_deploy = \<lparr>branch = [], job = ''deploy'', verify = False\<rparr>"

section \<open>Facts about the verifier and one iteration\<close>


lemma log_fields [simp]:
  "repoShas (debug m st) = repoShas st" "exec_calls (debug m st) = exec_calls st"
  "sha (debug m st) = sha st" "lastSha (debug m st) = lastSha st"
  "repoShas (info m st) = repoShas st" "exec_calls (info m st) = exec_calls st"
  "sha (info m st) = sha st" "lastSha (info m st) = lastSha st"
  "repoShas (warning m st) = repoShas st" "exec_calls (warning m st) = exec_calls st"
  "sha (warning m st) = sha st" "lastSha (warning m st) = lastSha st"
  by (simp_all add: debug_def info_def warning_def)

lemma effective_history_log [simp]:
  "effective_history e (debug m st) = effective_history e st"
  "effective_history e (info m st) = effective_history e st"
  "effective_history e (warning m st) = effective_history e st"
  by (simp_all add: effective_history_def split: option.splits)

lemma verifyCommit_result:
  assumes "verifyCommit e s st = (b, st1)"
  shows "b = (s \<in> set (effective_history e st))"
    and "repoShas st1 = Some (effective_history e st)"
    and "sha st1 = sha st" and "lastSha st1 = lastSha st"
  using assms
  by (auto simp: verifyCommit_def effective_history_def Let_def split: option.splits sum.splits)

lemma foundJob_result:
  "foundJob j jobs st = (b, st1) \<Longrightarrow>
     b = (\<exists>x \<in> set jobs. job_name x = j \<and> job_conclusion x = Some ''success'') \<and>
     repoShas st1 = repoShas st \<and> exec_calls st1 = exec_calls st \<and>
     sha st1 = sha st \<and> lastSha st1 = lastSha st"
proof (induction jobs arbitrary: st)
  case Nil
  then show ?case by simp
next
  case (Cons x xs)
  show ?case
  proof (cases "job_name x = j \<and> job_conclusion x = Some ''success''")
    case True
    with Cons.prems show ?thesis by (auto simp: Let_def)
  next
    case False
    with Cons.prems have "foundJob j xs (debug ''Checking job: [object Object]'' st) = (b, st1)"
      by (auto simp: Let_def)
    from Cons.IH [OF this] False show ?thesis by auto
  qed
qed


lemma accept_result:
  "accept inp r st = (v, st1) \<Longrightarrow>
     v = Break \<and> sha st1 = Some (head_sha r) \<and> lastSha st1 = lastSha st \<and>
     repoShas st1 = repoShas st \<and> exec_calls st1 = exec_calls st"
  by (auto simp: accept_def)

lemma check_job_result:
  assumes "check_job inp e r st = (v, st1)"
  shows "repoShas st1 = repoShas st \<and> exec_calls st1 = exec_calls st \<and> lastSha st1 = lastSha st"
    and "v = Break \<Longrightarrow> (truthy (job inp) \<longrightarrow> job_ok inp e r) \<and> sha st1 = Some (head_sha r)"
    and "v \<noteq> Break \<Longrightarrow> truthy (job inp) \<and> \<not> job_ok inp e r \<and> sha st1 = sha st"
    and "v = Raise m \<Longrightarrow> listJobsForWorkflowRun e (run_id r) = Inl m"
  using assms
  by (auto simp: check_job_def job_ok_def split: if_splits sum.splits prod.splits
      dest!: foundJob_result accept_result)

lemma effective_history_same:
  "repoShas st1 = repoShas st \<Longrightarrow> exec_calls st1 = exec_calls st \<Longrightarrow>
   effective_history e st1 = effective_history e st"
  by (simp add: effective_history_def split: option.splits)

lemma effective_history_upd [simp]:
  "effective_history e (st\<lparr>lastSha := a\<rparr>) = effective_history e st"
  "effective_history e (st\<lparr>sha := b\<rparr>) = effective_history e st"
  "effective_history e (st\<lparr>logs := c\<rparr>) = effective_history e st"
  by (rule effective_history_same; simp)+

lemma effective_history_cached:
  "repoShas st1 = Some (effective_history e st) \<Longrightarrow> effective_history e st1 = effective_history e st"
  by (simp add: effective_history_def)

lemma enter_fields [simp]:
  "repoShas (enter inp r st) = repoShas st" "exec_calls (enter inp r st) = exec_calls st"
  "sha (enter inp r st) = sha st" "lastSha (enter inp r st) = Some (head_sha r)"
  "effective_history e (enter inp r st) = effective_history e st"
  by (simp_all add: enter_def)

lemma check_verify_result:
  assumes "check_verify inp e r st = (v, st1)"
  shows "effective_history e st1 = effective_history e st"
    and "lastSha st1 = lastSha st"
    and "v = Break \<Longrightarrow>
           (verify inp \<longrightarrow> head_sha r \<in> set (effective_history e st)) \<and>
           (truthy (job inp) \<longrightarrow> job_ok inp e r) \<and> sha st1 = Some (head_sha r)"
    and "v \<noteq> Break \<Longrightarrow>
           \<not> ((verify inp \<longrightarrow> head_sha r \<in> set (effective_history e st)) \<and>
              (truthy (job inp) \<longrightarrow> job_ok inp e r)) \<and> sha st1 = sha st"
    and "v = Raise m \<Longrightarrow> truthy (job inp) \<and> listJobsForWorkflowRun e (run_id r) = Inl m"
proof (atomize (full), cases "verify inp", goal_cases)
  case 2
  with assms have cj: "check_job inp e r st = (v, st1)" by (simp add: check_verify_def)
  have "effective_history e st1 = effective_history e st"
    using check_job_result(1) [OF cj] by (intro effective_history_same) simp_all
  with check_job_result [OF cj] 2 show ?case
    by auto
next
  case 1
  obtain ok s1 where vc: "verifyCommit e (head_sha r) st = (ok, s1)"
    by (cases "verifyCommit e (head_sha r) st")
  note vr = verifyCommit_result [OF vc]
  show ?case
  proof (cases ok)
    case False
    with 1 vc assms have "v = Continue"
      "st1 = warning (''Failed to verify commit '' @ head_sha r @ ''. Skipping.'') s1"
      by (simp_all add: check_verify_def)
    moreover have "effective_history e s1 = effective_history e st"
      using vr(2) by (rule effective_history_cached)
    ultimately show ?thesis using vr False 1 by simp
  next
    case True
    with 1 vc assms have cj: "check_job inp e r s1 = (v, st1)" by (simp add: check_verify_def)
    have "effective_history e s1 = effective_history e st"
      using vr(2) by (rule effective_history_cached)
    moreover have "effective_history e st1 = effective_history e s1"
      using check_job_result(1) [OF cj] by (intro effective_history_same) simp_all
    ultimately have "effective_history e st1 = effective_history e st" by simp
    moreover have "lastSha st1 = lastSha st" "head_sha r \<in> set (effective_history e st)"
      using check_job_result(1) [OF cj] vr True by simp_all
    moreover have "sha s1 = sha st" using vr by simp
    ultimately show ?thesis
      using check_job_result(2-4) [OF cj] by auto
  qed
qed

lemma iteration_result:
  assumes "iteration inp e r st = (v, st1)"
  shows "effective_history e st1 = effective_history e st"
    and "lastSha st1 = Some (head_sha r)"
    and "v = Break \<Longrightarrow> passes inp e (effective_history e st) r \<and> sha st1 = Some (head_sha r)"
    and "v \<noteq> Break \<Longrightarrow> \<not> passes inp e (effective_history e st) r \<and> sha st1 = sha st"
    and "v = Raise m \<Longrightarrow> truthy (job inp) \<and> listJobsForWorkflowRun e (run_id r) = Inl m"
proof (atomize (full), cases "truthy (branch inp) \<and> head_branch r \<noteq> Some (branch inp)", goal_cases)
  case 1
  with assms have "v = Continue" "st1 = enter inp r st" by (auto simp: iteration_def Let_def)
  with 1 show ?case by (simp add: passes_def)
next
  case 2
  with assms have cv: "check_verify inp e r (enter inp r st) = (v, st1)"
    by (auto simp: iteration_def Let_def)
  from check_verify_result [OF cv] 2 show ?case by (auto simp: passes_def)
qed

section \<open>Facts about the scan\<close>

lemma scan_Cons_cases:
  obtains (skip) st1 where "iteration inp e r st = (Continue, st1)"
      "scan inp e (r # rs) st = scan inp e rs st1"
    | (stop) st1 where "iteration inp e r st = (Break, st1)"
      "\<And>rs. scan inp e (r # rs) st = Completed st1"
    | (throw) m st1 where "iteration inp e r st = (Raise m, st1)"
      "scan inp e (r # rs) st = Thrown m st1"
proof (cases "iteration inp e r st")
  case (Pair v st1)
  then show ?thesis by (cases v) (auto intro: that)
qed

lemma scan_primary:
  assumes "scan inp e runs st = Completed st'" and "sha st = None" and "sha st' = Some s"
  shows "\<exists>pre r post. runs = pre @ r # post \<and>
           (\<forall>x \<in> set pre. \<not> passes inp e (effective_history e st) x) \<and>
           passes inp e (effective_history e st) r \<and> s = head_sha r \<and>
           (\<forall>post'. scan inp e (pre @ r # post') st = Completed st')"
  using assms
proof (induction runs arbitrary: st)
  case Nil
  then show ?case by simp
next
  case (Cons a rs)
  show ?case
  proof (cases rule: scan_Cons_cases [of inp e a st rs])
    case (skip st1)
    note it = iteration_result [OF skip(1)]
    from it(4) have np: "\<not> passes inp e (effective_history e st) a" and s1: "sha st1 = None"
      using Cons.prems(2) by simp_all
    from Cons.prems(1) skip(2) have "scan inp e rs st1 = Completed st'" by simp
    from Cons.IH [OF this s1 Cons.prems(3)] obtain pre r post where
      rs: "rs = pre @ r # post"
      and pre: "\<forall>x \<in> set pre. \<not> passes inp e (effective_history e st) x"
      and r: "passes inp e (effective_history e st) r" "s = head_sha r"
      and stop: "\<forall>post'. scan inp e (pre @ r # post') st1 = Completed st'"
      unfolding it(1) by blast
    have "\<forall>post'. scan inp e ((a # pre) @ r # post') st = Completed st'"
      using stop skip(1) by simp
    moreover have "a # rs = (a # pre) @ r # post" using rs by simp
    moreover have "\<forall>x \<in> set (a # pre). \<not> passes inp e (effective_history e st) x"
      using pre np by simp
    ultimately show ?thesis using r by blast
  next
    case (stop st1)
    note it = iteration_result [OF stop(1)]
    from Cons.prems(1) stop(2) have eq: "st1 = st'" by simp
    from it(3) eq Cons.prems(3) have "passes inp e (effective_history e st) a" "s = head_sha a"
      by simp_all
    moreover have "\<forall>post'. scan inp e ([] @ a # post') st = Completed st'"
      using stop(2) eq by simp
    moreover have "a # rs = [] @ a # rs" by simp
    ultimately show ?thesis by (metis empty_iff list.set(1))
  next
    case (throw m st1)
    with Cons.prems(1) show ?thesis by simp
  qed
qed

lemma scan_none:
  assumes "\<forall>r \<in> set runs. \<not> passes inp e (effective_history e st) r"
    and "truthy (job inp) \<longrightarrow> (\<forall>r \<in> set runs. \<forall>m. listJobsForWorkflowRun e (run_id r) \<noteq> Inl m)"
  shows "\<exists>st'. scan inp e runs st = Completed st' \<and> sha st' = sha st \<and>
           lastSha st' = (if runs = [] then lastSha st else Some (head_sha (last runs))) \<and>
           effective_history e st' = effective_history e st"
  using assms
proof (induction runs arbitrary: st)
  case Nil
  then show ?case by simp
next
  case (Cons a rs)
  show ?case
  proof (cases rule: scan_Cons_cases [of inp e a st rs])
    case (skip st1)
    note it = iteration_result [OF skip(1)]
    have "\<forall>r \<in> set rs. \<not> passes inp e (effective_history e st1) r"
      using Cons.prems(1) it(1) by simp
    moreover have "truthy (job inp) \<longrightarrow>
        (\<forall>r \<in> set rs. \<forall>m. listJobsForWorkflowRun e (run_id r) \<noteq> Inl m)"
      using Cons.prems(2) by simp
    ultimately obtain st' where st': "scan inp e rs st1 = Completed st'" "sha st' = sha st1"
      "lastSha st' = (if rs = [] then lastSha st1 else Some (head_sha (last rs)))"
      "effective_history e st' = effective_history e st1"
      using Cons.IH [of st1] by blast
    from it(4) have "sha st1 = sha st" by simp
    with st' skip(2) it(1,2) show ?thesis by simp
  next
    case (stop st1)
    from iteration_result(3) [OF stop(1)] Cons.prems(1) show ?thesis by simp
  next
    case (throw m st1)
    from iteration_result(5) [OF throw(1)] Cons.prems(2) show ?thesis by simp
  qed
qed

section \<open>Facts about the ranking\<close>


lemma set_insert_by [simp]: "set (insert_by c x xs) = insert x (set xs)"
  by (induction xs) auto

lemma set_sort_by [simp]: "set (sort_by c xs) = set xs"
  by (induction xs) auto

lemma length_insert_by [simp]: "length (insert_by c x xs) = Suc (length xs)"
  by (induction xs) auto

lemma length_sort_by [simp]: "length (sort_by c xs) = length xs"
  by (induction xs) auto

lemma sorted_insert_by:
  "sorted_wrt (\<lambda>a b. created_at b \<le> created_at a) xs \<Longrightarrow>
   sorted_wrt (\<lambda>a b. created_at b \<le> created_at a) (insert_by compareFn x xs)"
  by (induction xs) (auto simp: compareFn_def)

lemma sorted_sort_by:
  "sorted_wrt (\<lambda>a b. created_at b \<le> created_at a) (sort_by compareFn xs)"
  by (induction xs) (auto intro: sorted_insert_by)

lemma filter_insert_by_other:
  "created_at x \<noteq> t \<Longrightarrow>
   filter (\<lambda>r. created_at r = t) (insert_by compareFn x xs) = filter (\<lambda>r. created_at r = t) xs"
  by (induction xs) auto

lemma filter_insert_by_same:
  "filter (\<lambda>r. created_at r = created_at x) (insert_by compareFn x xs) =
   x # filter (\<lambda>r. created_at r = created_at x) xs"
  by (induction xs) (auto simp: compareFn_def)

lemma sort_by_stable:
  "filter (\<lambda>r. created_at r = t) (sort_by compareFn xs) = filter (\<lambda>r. created_at r = t) xs"
proof (induction xs)
  case Nil
  show ?case by simp
next
  case (Cons x xs)
  then show ?case
    by (cases "created_at x = t") (auto simp: filter_insert_by_other filter_insert_by_same)
qed

lemma rank_runs_branch:
  "r \<in> set (rank_runs inp wruns) \<Longrightarrow> \<not> (truthy (branch inp) \<and> head_branch r \<noteq> Some (branch inp))"
  by (auto simp: rank_runs_def keep_def)

lemma last_rank_runs_oldest:
  assumes "r \<in> set (rank_runs inp wruns)"
  shows "created_at (last (rank_runs inp wruns)) \<le> created_at r"
proof -
  let ?xs = "rank_runs inp wruns"
  have srt: "sorted_wrt (\<lambda>a b. created_at b \<le> created_at a) ?xs"
    by (simp add: rank_runs_def sorted_sort_by)
  from assms obtain i where i: "i < length ?xs" "?xs ! i = r" by (auto simp: in_set_conv_nth)
  then have ne: "?xs \<noteq> []" by auto
  show ?thesis
  proof (cases "i = length ?xs - 1")
    case True
    with i ne show ?thesis by (simp add: last_conv_nth)
  next
    case False
    with i have "i < length ?xs - 1" by simp
    with srt i ne have "created_at (?xs ! (length ?xs - 1)) \<le> created_at (?xs ! i)"
      by (auto simp: sorted_wrt_iff_nth_less)
    with i ne show ?thesis by (simp add: last_conv_nth)
  qed
qed

section \<open>Facts about special cases of the scan and the verifier\<close>


lemma start_fields [simp]:
  "repoShas (start n st) = repoShas st" "exec_calls (start n st) = exec_calls st"
  "sha (start n st) = None" "lastSha (start n st) = None"
  "effective_history e (start n st) = effective_history e st"
  by (simp_all add: start_def)

lemma check_verify_unverified:
  assumes "verify inp" and "head_sha r \<notin> set (effective_history e st)"
  shows "fst (check_verify inp e r st) = Continue"
proof -
  obtain ok s1 where vc: "verifyCommit e (head_sha r) st = (ok, s1)"
    by (cases "verifyCommit e (head_sha r) st")
  from verifyCommit_result(1) [OF vc] assms(2) have "\<not> ok" by simp
  with vc assms(1) show ?thesis by (simp add: check_verify_def)
qed

lemma iteration_unverified:
  assumes "verify inp" and "head_sha r \<notin> set (effective_history e st)"
  shows "fst (iteration inp e r st) = Continue"
  using check_verify_unverified [OF assms(1), of r e "enter inp r st"] assms(2)
  by (simp add: iteration_def Let_def)

lemma scan_unverified:
  assumes "verify inp" and "effective_history e st = []"
  shows "\<exists>st'. scan inp e runs st = Completed st' \<and> sha st' = sha st \<and>
           lastSha st' = (if runs = [] then lastSha st else Some (head_sha (last runs))) \<and>
           effective_history e st' = []"
  using assms(2)
proof (induction runs arbitrary: st)
  case Nil
  then show ?case by simp
next
  case (Cons a rs)
  have c: "fst (iteration inp e a st) = Continue"
    using iteration_unverified [OF assms(1), of a e st] Cons.prems by simp
  then obtain st1 where it: "iteration inp e a st = (Continue, st1)"
    by (cases "iteration inp e a st") simp
  note ir = iteration_result [OF it]
  from ir(1) Cons.prems have "effective_history e st1 = []" by simp
  from Cons.IH [OF this] obtain st' where st': "scan inp e rs st1 = Completed st'"
    "sha st' = sha st1"
    "lastSha st' = (if rs = [] then lastSha st1 else Some (head_sha (last rs)))"
    "effective_history e st' = []"
    by blast
  from ir(4) have "sha st1 = sha st" by simp
  with st' it ir(2) show ?case by simp
qed

lemma scan_take_unverified:
  assumes "verify inp" and "effective_history e st = []"
  shows "\<exists>st'. scan inp e (take n runs) st = Completed st' \<and> sha st' = sha st"
  using scan_unverified [OF assms, of "take n runs"] by blast

lemma empty_history_cases:
  "repoShas st = Some [] \<or> (repoShas st = None \<and> (\<exists>m. execAsync e (exec_calls st) = Inl m))
   \<Longrightarrow> effective_history e st = []"
  by (auto simp: effective_history_def)

lemma iteration_no_recheck_eq:
  "\<not> (truthy (branch inp) \<and> head_branch r \<noteq> Some (branch inp)) \<Longrightarrow>
   iteration_no_recheck inp e r st = iteration inp e r st"
  by (auto simp: iteration_no_recheck_def iteration_def Let_def)

lemma scan_no_recheck_eq:
  "\<forall>r \<in> set runs. \<not> (truthy (branch inp) \<and> head_branch r \<noteq> Some (branch inp)) \<Longrightarrow>
   scan_no_recheck inp e runs st = scan inp e runs st"
proof (induction runs arbitrary: st)
  case Nil
  show ?case by simp
next
  case (Cons a rs)
  then have "iteration_no_recheck inp e a st = iteration inp e a st"
    by (simp add: iteration_no_recheck_eq)
  with Cons show ?case
    by (simp split: prod.splits verdict.splits)
qed

lemma run_body_fallback:
  assumes "scan inp e (rank_runs inp wruns) (start (length (rank_runs inp wruns)) st) = Completed st1"
    and "sha st1 = None" and "rank_runs inp wruns \<noteq> []"
  shows "run_body inp e wruns st =
           (SetOutput (lastSha st1),
            (warning (unable (length (rank_runs inp wruns))) st1)\<lparr>sha := lastSha st1\<rparr>)"
  using assms by (simp add: run_body_def Let_def falsy_opt_def)

lemma verifyCommit_empty_cache:
  assumes "repoShas st = Some []"
  shows "verifyCommit e s st = (False, info (''Looking for SHA '' @ s @ '' in repo SHAs'') st)"
  using assms by (simp add: verifyCommit_def)

lemma verifyCommits_empty_cache:
  "repoShas st = Some [] \<Longrightarrow>
   \<exists>st2. verifyCommits e ss st = (replicate (length ss) False, st2) \<and>
         repoShas st2 = Some [] \<and> exec_calls st2 = exec_calls st"
proof (induction ss arbitrary: st)
  case Nil
  then show ?case by simp
next
  case (Cons s ss)
  let ?s1 = "info (''Looking for SHA '' @ s @ '' in repo SHAs'') st"
  have "repoShas ?s1 = Some []" using Cons.prems by simp
  from Cons.IH [OF this] obtain st2 where
    "verifyCommits e ss ?s1 = (replicate (length ss) False, st2)"
    "repoShas st2 = Some []" "exec_calls st2 = exec_calls ?s1"
    by blast
  then show ?case using Cons.prems by (simp add: verifyCommit_empty_cache)
qed

lemma verifyCommit_cached:
  assumes "repoShas st = Some shas"
  shows "verifyCommit e s st = (s \<in> set shas, info (''Looking for SHA '' @ s @ '' in repo SHAs'') st)"
  using assms by (simp add: verifyCommit_def)

lemma verifyCommit_fetch_ok:
  assumes "repoShas st = None" and "execAsync e (exec_calls st) = Inr out"
  shows "\<exists>st1. verifyCommit e s st = (s \<in> set (split_on (CHR 0x0A) (trim out)), st1) \<and>
           repoShas st1 = Some (split_on (CHR 0x0A) (trim out)) \<and>
           exec_calls st1 = exec_calls st + 1"
  using assms by (simp add: verifyCommit_def Let_def)

lemma verifyCommit_fetch_fails:
  assumes "repoShas st = None" and "execAsync e (exec_calls st) = Inl msg"
  shows "\<exists>st1. verifyCommit e s st = (False, st1) \<and> repoShas st1 = Some [] \<and>
           exec_calls st1 = exec_calls st + 1 \<and>
           logs st1 = logs st @
             [Info (''Getting list of SHAs in repo via command '' @ [CHR 0x22] @ cmd @ [CHR 0x22]),
              Warning (''Error while attempting to get list of SHAs: '' @ msg)]"
  using assms by (simp add: verifyCommit_def Let_def info_def warning_def)

section \<open>Unfolding the definitions on concrete inputs\<close>


lemmas ex_defs = init_state_def run_a_def run_b_def run_c_def run_d_def jobs_of_def exec_ok_def
  exec_fails_def env_ok_def env_fails_def no_filter_def main_verify_def job_test_def job_deploy_def

lemmas run_defs = rank_runs_def keep_def truthy_def compareFn_def iteration_def enter_def
  check_verify_def check_job_def accept_def verifyCommit_def debug_def info_def warning_def
  show_null_def falsy_opt_def start_def run_body_def trim_def is_ws_def cmd_def

section \<open>The properties\<close>

text \<open>
  C1: when the scan over the ranked runs ends with a primary SHA, the ranked runs split
  into runs that each fail some enabled check, then a run that satisfies all of them and
  whose head SHA is that SHA; whatever follows that run has no effect on the result.
\<close>

theorem primary_sha_first_passing:
  assumes "scan inp e (rank_runs inp wruns) st = Completed st'"
    and "sha st = None" and "sha st' = Some s"
  shows "\<exists>pre r post. rank_runs inp wruns = pre @ r # post \<and>
           (\<forall>x \<in> set pre. \<not> passes inp e (effective_history e st) x) \<and>
           passes inp e (effective_history e st) r \<and> s = head_sha r \<and>
           (\<forall>post'. scan inp e (pre @ r # post') st = Completed st')"
  using assms by (rule scan_primary)

theorem primary_sha_first_passing_witness:
  "sha init_state = None \<and>
   (\<exists>st'. scan job_test env_ok (rank_runs job_test [run_c, run_a, run_d, run_b]) init_state =
             Completed st' \<and> sha st' = Some ''b2'' \<and>
      (\<exists>pre r post. rank_runs job_test [run_c, run_a, run_d, run_b] = pre @ r # post \<and>
           (\<forall>x \<in> set pre. \<not> passes job_test env_ok (effective_history env_ok init_state) x) \<and>
           passes job_test env_ok (effective_history env_ok init_state) r \<and> ''b2'' = head_sha r \<and>
           (\<forall>post'. scan job_test env_ok (pre @ r # post') init_state = Completed st')))"
proof -
  have s0: "sha init_state = None" by (simp add: init_state_def)
  have "\<exists>st'. scan job_test env_ok (rank_runs job_test [run_c, run_a, run_d, run_b]) init_state =
             Completed st' \<and> sha st' = Some ''b2''"
    by (simp add: run_defs ex_defs)
  then obtain st' where st': "scan job_test env_ok (rank_runs job_test [run_c, run_a, run_d, run_b]) init_state =
             Completed st'" "sha st' = Some ''b2''" by blast
  from primary_sha_first_passing [OF st'(1) s0 st'(2)] st' s0 show ?thesis by blast
qed

text \<open>
  C2: a run is kept by the filter applied before ranking exactly when the branch filter
  is unset or equals the run's branch, and the job-name filter is set or the run's
  conclusion is success; the ranked runs are exactly the fetched runs that are kept.
\<close>

theorem filter_keeps_iff:
  "(keep inp x \<longleftrightarrow>
      (branch inp = [] \<or> head_branch x = Some (branch inp)) \<and>
      (job inp \<noteq> [] \<or> conclusion x = Some ''success'')) \<and>
   (x \<in> set (rank_runs inp wruns) \<longleftrightarrow>
      x \<in> set wruns \<and>
      (branch inp = [] \<or> head_branch x = Some (branch inp)) \<and>
      (job inp \<noteq> [] \<or> conclusion x = Some ''success''))"
  by (auto simp: keep_def truthy_def rank_runs_def)

theorem filter_keeps_iff_witness:
  "keep job_test run_a \<and> \<not> keep no_filter run_a \<and> keep no_filter run_b \<and>
   \<not> keep main_verify (run_b\<lparr>head_branch := Some ''dev''\<rparr>) \<and>
   run_b \<in> set (rank_runs no_filter [run_c, run_a, run_b]) \<and>
   run_a \<notin> set (rank_runs no_filter [run_c, run_a, run_b])"
  using filter_keeps_iff [of job_test run_a "[]"] filter_keeps_iff [of no_filter run_a "[run_c, run_a, run_b]"]
    filter_keeps_iff [of no_filter run_b "[run_c, run_a, run_b]"]
    filter_keeps_iff [of main_verify "run_b\<lparr>head_branch := Some ''dev''\<rparr>" "[]"]
  by (simp add: job_test_def no_filter_def main_verify_def run_a_def run_b_def run_c_def)

text \<open>
  C3, as the spec states it, fails: with the job filter ''deploy'' and the runs
  \<open>run_a\<close> (most recent) and \<open>run_c\<close>, no run satisfies the checks, and the emitted SHA is
  that of \<open>run_c\<close>, the last run of the ranked order, not that of its first run \<open>run_a\<close>.
\<close>

theorem fallback_not_first_counterexample:
  "rank_runs job_deploy [run_c, run_a] = [run_a, run_c] \<and>
   \<not> passes job_deploy env_ok (effective_history env_ok init_state) run_a \<and>
   \<not> passes job_deploy env_ok (effective_history env_ok init_state) run_c \<and>
   fst (run_body job_deploy env_ok [run_c, run_a] init_state) = SetOutput (Some ''c3'') \<and>
   head_sha (hd (rank_runs job_deploy [run_c, run_a])) = ''a1''"
  by (simp add: run_defs ex_defs passes_def job_ok_def effective_history_def)

text \<open>
  C3, amended: for a non-empty ranked sequence in which no run satisfies all enabled
  checks and, when a job filter is set, no request for jobs throws, the emitted SHA is
  the fallback SHA, which is the head SHA of the last run of the ranked order (the run
  scanned last, with the least created timestamp), and the last message logged is the
  warning that the SHA could not be determined.
\<close>

theorem fallback_is_last_scanned:
  assumes "rank_runs inp wruns \<noteq> []"
    and "\<forall>r \<in> set (rank_runs inp wruns). \<not> passes inp e (effective_history e st) r"
    and "truthy (job inp) \<longrightarrow>
         (\<forall>r \<in> set (rank_runs inp wruns). \<forall>m. listJobsForWorkflowRun e (run_id r) \<noteq> Inl m)"
  shows "\<exists>st'. run_body inp e wruns st =
             (SetOutput (Some (head_sha (last (rank_runs inp wruns)))), st') \<and>
           lastSha st' = Some (head_sha (last (rank_runs inp wruns))) \<and>
           last (logs st') = Warning (unable (length (rank_runs inp wruns))) \<and>
           (\<forall>r \<in> set (rank_runs inp wruns).
              created_at (last (rank_runs inp wruns)) \<le> created_at r)"
proof -
  let ?runs = "rank_runs inp wruns"
  let ?s0 = "start (length ?runs) st"
  have "\<forall>r \<in> set ?runs. \<not> passes inp e (effective_history e ?s0) r"
    using assms(2) by simp
  from scan_none [OF this assms(3)] obtain st1 where st1:
    "scan inp e ?runs ?s0 = Completed st1" "sha st1 = sha ?s0"
    "lastSha st1 = (if ?runs = [] then lastSha ?s0 else Some (head_sha (last ?runs)))"
    by blast
  from st1(2) have none: "sha st1 = None" by simp
  from st1(3) assms(1) have l: "lastSha st1 = Some (head_sha (last ?runs))" by simp
  from run_body_fallback [OF st1(1) none assms(1)] l
  have "run_body inp e wruns st =
     (SetOutput (Some (head_sha (last ?runs))),
      (warning (unable (length ?runs)) st1)\<lparr>sha := lastSha st1\<rparr>)"
    by simp
  moreover have "lastSha ((warning (unable (length ?runs)) st1)\<lparr>sha := lastSha st1\<rparr>) =
      Some (head_sha (last ?runs))"
    using l by simp
  moreover have "last (logs ((warning (unable (length ?runs)) st1)\<lparr>sha := lastSha st1\<rparr>)) =
      Warning (unable (length ?runs))"
    by (simp add: warning_def)
  ultimately show ?thesis
    using last_rank_runs_oldest [of _ inp wruns] by blast
qed

theorem fallback_is_last_scanned_witness:
  "rank_runs job_deploy [run_c, run_a] = [run_a, run_c] \<and>
   (\<exists>st'. run_body job_deploy env_ok [run_c, run_a] init_state = (SetOutput (Some ''c3''), st') \<and>
      lastSha st' = Some ''c3'' \<and>
      last (logs st') =
        Warning ''Unable to determine SHA of last successful commit (possibly outside the window of 2 runs). Using earliest SHA available.'')"
proof -
  have r: "rank_runs job_deploy [run_c, run_a] = [run_a, run_c]"
    by (simp add: run_defs ex_defs)
  have ne: "rank_runs job_deploy [run_c, run_a] \<noteq> []" by (simp add: r)
  have np: "\<forall>r \<in> set (rank_runs job_deploy [run_c, run_a]).
      \<not> passes job_deploy env_ok (effective_history env_ok init_state) r"
    by (simp add: r) (simp add: ex_defs passes_def job_ok_def truthy_def)
  have ok: "truthy (job job_deploy) \<longrightarrow> (\<forall>r \<in> set (rank_runs job_deploy [run_c, run_a]).
      \<forall>m. listJobsForWorkflowRun env_ok (run_id r) \<noteq> Inl m)"
    by (simp add: r) (simp add: ex_defs)
  have h: "head_sha (last (rank_runs job_deploy [run_c, run_a])) = ''c3''"
    by (simp add: r) (simp add: run_c_def)
  have u: "unable (length (rank_runs job_deploy [run_c, run_a])) =
    ''Unable to determine SHA of last successful commit (possibly outside the window of 2 runs). Using earliest SHA available.''"
    by (simp add: r) (simp add: unable_def show_nat.simps)
  from fallback_is_last_scanned [OF ne np ok] show ?thesis
    unfolding h u by (simp add: r) blast
qed

text \<open>
  C4: the ranked runs are in descending order of their created timestamps, and the
  runs with any one timestamp stand in the order in which they were fetched.
\<close>

theorem rank_runs_descending_stable:
  "(\<forall>i j. i < j \<and> j < length (rank_runs inp wruns) \<longrightarrow>
      created_at (rank_runs inp wruns ! j) \<le> created_at (rank_runs inp wruns ! i)) \<and>
   (\<forall>t. filter (\<lambda>r. created_at r = t) (rank_runs inp wruns) =
        filter (\<lambda>r. created_at r = t) (filter (keep inp) wruns))"
proof -
  have "sorted_wrt (\<lambda>a b. created_at b \<le> created_at a) (rank_runs inp wruns)"
    by (simp add: rank_runs_def sorted_sort_by)
  then show ?thesis
    by (auto simp: sorted_wrt_iff_nth_less rank_runs_def sort_by_stable)
qed

theorem rank_runs_descending_stable_witness:
  "rank_runs no_filter [run_c, run_a, run_d, run_b] = [run_d, run_b, run_c] \<and>
   created_at (rank_runs no_filter [run_c, run_a, run_d, run_b] ! 2) \<le>
     created_at (rank_runs no_filter [run_c, run_a, run_d, run_b] ! 0) \<and>
   filter (\<lambda>r. created_at r = 200) (rank_runs no_filter [run_c, run_a, run_d, run_b]) = [run_d, run_b]"
proof -
  have r: "rank_runs no_filter [run_c, run_a, run_d, run_b] = [run_d, run_b, run_c]"
    by (simp add: rank_runs_def keep_def truthy_def no_filter_def compareFn_def
        run_a_def run_b_def run_c_def run_d_def)
  have k: "filter (keep no_filter) [run_c, run_a, run_d, run_b] = [run_c, run_d, run_b]"
    by (simp add: keep_def truthy_def no_filter_def run_a_def run_b_def run_c_def run_d_def)
  have "(0::nat) < 2 \<and> 2 < length (rank_runs no_filter [run_c, run_a, run_d, run_b])"
    by (simp add: r)
  with rank_runs_descending_stable [of no_filter "[run_c, run_a, run_d, run_b]"]
  have "created_at (rank_runs no_filter [run_c, run_a, run_d, run_b] ! 2) \<le>
     created_at (rank_runs no_filter [run_c, run_a, run_d, run_b] ! 0)"
    and "filter (\<lambda>r. created_at r = 200) (rank_runs no_filter [run_c, run_a, run_d, run_b]) =
        filter (\<lambda>r. created_at r = 200) (filter (keep no_filter) [run_c, run_a, run_d, run_b])"
    by blast+
  then show ?thesis using r k
    by (simp add: run_b_def run_c_def run_d_def)
qed

text \<open>
  C5, as the spec states it, fails: with no runs at all, the warning that the SHA could
  not be determined is logged after the informational message.
\<close>

theorem no_runs_warning_counterexample:
  "rank_runs no_filter [] = [] \<and>
   Warning ''Unable to determine SHA of last successful commit (possibly outside the window of 0 runs). Using earliest SHA available.''
     \<in> set (logs (snd (run_body no_filter env_ok [] init_state)))"
  by (simp add: run_defs ex_defs unable_def show_nat.simps)

text \<open>
  C5, amended: when the ranked sequence is empty, the primary and the fallback SHA are
  absent and the output is set to the absent value; the messages logged are the debug
  message with the count, the informational message that no runs were found, and then
  the warning that the SHA could not be determined.
\<close>

theorem no_runs_outcome:
  assumes "rank_runs inp wruns = []"
  shows "run_body inp e wruns st =
           (SetOutput None,
            st\<lparr>lastSha := None, sha := None,
               logs := logs st @
                 [Debug ''Found 0 runs'',
                  Info (''No previous runs found for branch '' @ branch inp @ ''.''),
                  Warning ''Unable to determine SHA of last successful commit (possibly outside the window of 0 runs). Using earliest SHA available.'']\<rparr>)"
  using assms
  by (simp add: run_body_def Let_def start_def debug_def info_def warning_def falsy_opt_def
      unable_def show_nat.simps)

theorem no_runs_outcome_witness:
  "rank_runs no_filter [run_a] = [] \<and>
   run_body no_filter env_ok [run_a] init_state =
     (SetOutput None,
      \<lparr>repoShas = None, lastSha = None, sha = None,
       logs = [Debug ''Found 0 runs'', Info ''No previous runs found for branch .'',
               Warning ''Unable to determine SHA of last successful commit (possibly outside the window of 0 runs). Using earliest SHA available.''],
       exec_calls = 0\<rparr>)"
proof -
  have r: "rank_runs no_filter [run_a] = []"
    by (simp add: rank_runs_def keep_def truthy_def no_filter_def run_a_def)
  from no_runs_outcome [OF r, of env_ok init_state] r show ?thesis
    by (simp add: init_state_def no_filter_def)
qed

text \<open>
  C6: when the first invocation of the history-listing command fails, that call of the
  verifier returns false, caches the empty history and logs a warning; every later call,
  for any SHA, returns false and leaves the number of invocations of the command as it
  is.
\<close>

theorem history_failure_not_retried:
  assumes "repoShas st = None" and "execAsync e (exec_calls st) = Inl msg"
  shows "\<exists>st1. verifyCommit e s st = (False, st1) \<and> repoShas st1 = Some [] \<and>
           exec_calls st1 = exec_calls st + 1 \<and>
           Warning (''Error while attempting to get list of SHAs: '' @ msg) \<in> set (logs st1) \<and>
           (\<forall>ss. \<exists>st2. verifyCommits e ss st1 = (replicate (length ss) False, st2) \<and>
                  repoShas st2 = Some [] \<and> exec_calls st2 = exec_calls st1) \<and>
           (\<forall>st2 s2. repoShas st2 = repoShas st1 \<longrightarrow>
                  fst (verifyCommit e s2 st2) = False \<and>
                  repoShas (snd (verifyCommit e s2 st2)) = Some [] \<and>
                  exec_calls (snd (verifyCommit e s2 st2)) = exec_calls st2)"
proof -
  from verifyCommit_fetch_fails [OF assms, of s] obtain st1 where st1:
    "verifyCommit e s st = (False, st1)" "repoShas st1 = Some []"
    "exec_calls st1 = exec_calls st + 1"
    "logs st1 = logs st @
       [Info (''Getting list of SHAs in repo via command '' @ [CHR 0x22] @ cmd @ [CHR 0x22]),
        Warning (''Error while attempting to get list of SHAs: '' @ msg)]"
    by blast
  have w: "Warning (''Error while attempting to get list of SHAs: '' @ msg) \<in> set (logs st1)"
    by (simp add: st1(4))
  have seq: "\<forall>ss. \<exists>st2. verifyCommits e ss st1 = (replicate (length ss) False, st2) \<and>
                  repoShas st2 = Some [] \<and> exec_calls st2 = exec_calls st1"
    using verifyCommits_empty_cache [OF st1(2)] by blast
  have later: "\<forall>st2 s2. repoShas st2 = repoShas st1 \<longrightarrow>
                  fst (verifyCommit e s2 st2) = False \<and>
                  repoShas (snd (verifyCommit e s2 st2)) = Some [] \<and>
                  exec_calls (snd (verifyCommit e s2 st2)) = exec_calls st2"
    by (simp add: st1(2) verifyCommit_empty_cache)
  from st1(1-3) w seq later show ?thesis by blast
qed

theorem history_failure_not_retried_witness:
  "repoShas init_state = None \<and> execAsync env_fails (exec_calls init_state) = Inl ''not a git repository'' \<and>
   (\<exists>st1. verifyCommit env_fails ''b2'' init_state = (False, st1) \<and> repoShas st1 = Some [] \<and>
      exec_calls st1 = 1 \<and>
      Warning ''Error while attempting to get list of SHAs: not a git repository'' \<in> set (logs st1) \<and>
      (\<exists>st2. verifyCommits env_fails [''b2'', ''c3''] st1 = ([False, False], st2) \<and>
         repoShas st2 = Some [] \<and> exec_calls st2 = 1))"
proof -
  have a: "repoShas init_state = None" by (simp add: init_state_def)
  have b: "execAsync env_fails (exec_calls init_state) = Inl ''not a git repository''"
    by (simp add: env_fails_def exec_fails_def)
  from history_failure_not_retried [OF a b, of "''b2''"] obtain st1 where st1:
    "verifyCommit env_fails ''b2'' init_state = (False, st1)" "repoShas st1 = Some []"
    "exec_calls st1 = exec_calls init_state + 1"
    "Warning (''Error while attempting to get list of SHAs: '' @ ''not a git repository'') \<in> set (logs st1)"
    "\<forall>ss. \<exists>st2. verifyCommits env_fails ss st1 = (replicate (length ss) False, st2) \<and>
                  repoShas st2 = Some [] \<and> exec_calls st2 = exec_calls st1"
    by blast
  from st1(5) obtain st2 where st2:
    "verifyCommits env_fails [''b2'', ''c3''] st1 = (replicate (length [''b2'', ''c3'']) False, st2)"
    "repoShas st2 = Some []" "exec_calls st2 = exec_calls st1"
    by blast
  have r: "replicate (length [''b2'', ''c3'']) False = [False, False]"
    by (simp add: numeral_2_eq_2)
  have e1: "exec_calls st1 = 1" using st1(3) by (simp add: init_state_def)
  have w: "Warning ''Error while attempting to get list of SHAs: not a git repository'' \<in> set (logs st1)"
    using st1(4) by simp
  from st2 have "verifyCommits env_fails [''b2'', ''c3''] st1 = ([False, False], st2) \<and>
         repoShas st2 = Some [] \<and> exec_calls st2 = 1"
    unfolding r e1 by simp
  with a b st1(1,2) e1 w show ?thesis by blast
qed

text \<open>
  C7: when the first history fetch succeeds, calls of the verifier with one SHA all
  return the same boolean, membership of the SHA in the fetched history, and the
  history-listing command is invoked once in total: by the first call only.
\<close>

theorem verify_idempotent_one_fetch:
  assumes "repoShas st = None" and "execAsync e (exec_calls st) = Inr out"
  shows "\<exists>b st1 st2 st3.
           verifyCommit e s st = (b, st1) \<and> verifyCommit e s st1 = (b, st2) \<and>
           verifyCommit e s st2 = (b, st3) \<and>
           b = (s \<in> set (split_on (CHR 0x0A) (trim out))) \<and>
           exec_calls st1 = exec_calls st + 1 \<and> exec_calls st2 = exec_calls st + 1 \<and>
           exec_calls st3 = exec_calls st + 1"
proof -
  let ?h = "split_on (CHR 0x0A) (trim out)"
  from verifyCommit_fetch_ok [OF assms, of s] obtain st1 where st1:
    "verifyCommit e s st = (s \<in> set ?h, st1)" "repoShas st1 = Some ?h"
    "exec_calls st1 = exec_calls st + 1"
    by blast
  let ?st2 = "info (''Looking for SHA '' @ s @ '' in repo SHAs'') st1"
  let ?st3 = "info (''Looking for SHA '' @ s @ '' in repo SHAs'') ?st2"
  have c2: "verifyCommit e s st1 = (s \<in> set ?h, ?st2)"
    using st1(2) by (rule verifyCommit_cached)
  have "repoShas ?st2 = Some ?h" using st1(2) by simp
  then have c3: "verifyCommit e s ?st2 = (s \<in> set ?h, ?st3)"
    by (rule verifyCommit_cached)
  have "exec_calls ?st2 = exec_calls st + 1" "exec_calls ?st3 = exec_calls st + 1"
    using st1(3) by simp_all
  with st1(1,3) c2 c3 show ?thesis by blast
qed

theorem verify_idempotent_one_fetch_witness:
  "repoShas init_state = None \<and> execAsync env_ok (exec_calls init_state) = Inr ''b2\<newline>c3\<newline>'' \<and>
   (\<exists>st1 st2 st3.
           verifyCommit env_ok ''c3'' init_state = (True, st1) \<and>
           verifyCommit env_ok ''c3'' st1 = (True, st2) \<and>
           verifyCommit env_ok ''c3'' st2 = (True, st3) \<and>
           exec_calls st1 = 1 \<and> exec_calls st2 = 1 \<and> exec_calls st3 = 1)"
proof -
  have a: "repoShas init_state = None" by (simp add: init_state_def)
  have b: "execAsync env_ok (exec_calls init_state) = Inr ''b2\<newline>c3\<newline>''"
    by (simp add: env_ok_def exec_ok_def)
  have m: "(''c3'' \<in> set (split_on (CHR 0x0A) (trim ''b2\<newline>c3\<newline>''))) = True"
    by (simp add: trim_def is_ws_def)
  have z: "exec_calls init_state + 1 = 1" by (simp add: init_state_def)
  from verify_idempotent_one_fetch [OF a b, of "''c3''"] a b show ?thesis
    unfolding m z by blast
qed

text \<open>
  C8: with a job-name filter set and the jobs of a run fetched, the job check lets the
  run through exactly when some fetched job has the filter as its name and success as
  its conclusion; when there is none the iteration ends in a skip and the scan goes on
  with the next run.
\<close>

theorem job_check_iff:
  assumes "truthy (job inp)" and "listJobsForWorkflowRun e (run_id r) = Inr jobs"
  shows "(fst (foundJob (job inp) jobs st) \<longleftrightarrow>
            (\<exists>x \<in> set jobs. job_name x = job inp \<and> job_conclusion x = Some ''success'')) \<and>
         (fst (check_job inp e r st) = Break \<longleftrightarrow>
            (\<exists>x \<in> set jobs. job_name x = job inp \<and> job_conclusion x = Some ''success'')) \<and>
         (\<not> (\<exists>x \<in> set jobs. job_name x = job inp \<and> job_conclusion x = Some ''success'') \<longrightarrow>
            fst (check_job inp e r st) = Continue \<and>
            fst (iteration inp e r st) = Continue \<and>
            scan inp e (r # rs) st = scan inp e rs (snd (iteration inp e r st)))"
proof -
  let ?ex = "\<exists>x \<in> set jobs. job_name x = job inp \<and> job_conclusion x = Some ''success''"
  obtain b s1 where fj: "foundJob (job inp) jobs st = (b, s1)"
    by (cases "foundJob (job inp) jobs st")
  from foundJob_result [OF fj] have b: "b = ?ex" by simp
  have one: "fst (foundJob (job inp) jobs st) \<longleftrightarrow> ?ex" using fj b by simp
  have two: "fst (check_job inp e r st) = Break \<longleftrightarrow> ?ex"
    using assms fj b by (simp add: check_job_def accept_def)
  have cj: "\<not> ?ex \<Longrightarrow> fst (check_job inp e r st) = Continue"
    using assms fj b by (simp add: check_job_def)
  have three: "fst (iteration inp e r st) = Continue" if n: "\<not> ?ex"
  proof -
    obtain v s2 where it: "iteration inp e r st = (v, s2)" by (cases "iteration inp e r st")
    have "\<not> job_ok inp e r" using n assms(2) by (simp add: job_ok_def)
    then have np: "\<not> passes inp e (effective_history e st) r"
      using assms(1) by (simp add: passes_def)
    have "v \<noteq> Break" using iteration_result(3) [OF it] np by blast
    moreover have "v \<noteq> Raise m" for m using iteration_result(5) [OF it, of m] assms(2) by auto
    ultimately have "v = Continue" by (cases v) auto
    with it show ?thesis by simp
  qed
  have four: "scan inp e (r # rs) st = scan inp e rs (snd (iteration inp e r st))" if n: "\<not> ?ex"
    using three [OF n] by (cases "iteration inp e r st") simp
  from one two cj three four show ?thesis by blast
qed

theorem job_check_iff_witness:
  "truthy (job job_test) \<and>
   listJobsForWorkflowRun env_ok (run_id run_a) =
     Inr [\<lparr>job_name = ''build'', job_conclusion = Some ''success''\<rparr>] \<and>
   fst (check_job job_test env_ok run_a init_state) = Continue \<and>
   fst (iteration job_test env_ok run_a init_state) = Continue \<and>
   scan job_test env_ok [run_a, run_b] init_state =
     scan job_test env_ok [run_b] (snd (iteration job_test env_ok run_a init_state)) \<and>
   listJobsForWorkflowRun env_ok (run_id run_b) =
     Inr [\<lparr>job_name = ''test'', job_conclusion = Some ''failure''\<rparr>,
          \<lparr>job_name = ''test'', job_conclusion = Some ''success''\<rparr>] \<and>
   fst (foundJob (job job_test) [\<lparr>job_name = ''test'', job_conclusion = Some ''failure''\<rparr>,
          \<lparr>job_name = ''test'', job_conclusion = Some ''success''\<rparr>] init_state) \<and>
   fst (check_job job_test env_ok run_b init_state) = Break"
proof -
  have t: "truthy (job job_test)" by (simp add: truthy_def job_test_def)
  have ja: "listJobsForWorkflowRun env_ok (run_id run_a) =
     Inr [\<lparr>job_name = ''build'', job_conclusion = Some ''success''\<rparr>]"
    by (simp add: env_ok_def jobs_of_def run_a_def)
  have jb: "listJobsForWorkflowRun env_ok (run_id run_b) =
     Inr [\<lparr>job_name = ''test'', job_conclusion = Some ''failure''\<rparr>,
          \<lparr>job_name = ''test'', job_conclusion = Some ''success''\<rparr>]"
    by (simp add: env_ok_def jobs_of_def run_b_def)
  have na: "\<not> (\<exists>x \<in> set [\<lparr>job_name = ''build'', job_conclusion = Some ''success''\<rparr>].
      job_name x = job job_test \<and> job_conclusion x = Some ''success'')"
    by (simp add: job_test_def)
  have yb: "\<exists>x \<in> set [\<lparr>job_name = ''test'', job_conclusion = Some ''failure''\<rparr>,
          \<lparr>job_name = ''test'', job_conclusion = Some ''success''\<rparr>].
      job_name x = job job_test \<and> job_conclusion x = Some ''success''"
    by (simp add: job_test_def)
  from job_check_iff [OF t ja, of init_state "[run_b]"] na
  have a: "fst (check_job job_test env_ok run_a init_state) = Continue"
    "fst (iteration job_test env_ok run_a init_state) = Continue"
    "scan job_test env_ok [run_a, run_b] init_state =
       scan job_test env_ok [run_b] (snd (iteration job_test env_ok run_a init_state))"
    by blast+
  from job_check_iff [OF t jb, of init_state "[]"] yb
  have b: "fst (foundJob (job job_test) [\<lparr>job_name = ''test'', job_conclusion = Some ''failure''\<rparr>,
          \<lparr>job_name = ''test'', job_conclusion = Some ''success''\<rparr>] init_state)"
    "fst (check_job job_test env_ok run_b init_state) = Break"
    by blast+
  from t ja jb a b show ?thesis by blast
qed

text \<open>
  C9: with verification enabled and an empty history (the cache is the empty list, or
  nothing is cached and the history-listing command fails), the scan of any prefix of
  the ranked runs completes with the primary SHA still absent, no request for jobs
  throws, and the output is the fallback: absent when there are no ranked runs, and
  otherwise the head SHA of the last of them, with the warning logged.
\<close>

theorem empty_history_always_falls_back:
  assumes "verify inp"
    and "repoShas st = Some [] \<or>
         (repoShas st = None \<and> (\<exists>m. execAsync e (exec_calls st) = Inl m))"
  shows "(\<forall>n. \<exists>st1. scan inp e (take n (rank_runs inp wruns))
                        (start (length (rank_runs inp wruns)) st) = Completed st1 \<and>
                      sha st1 = None) \<and>
         (\<exists>st'. run_body inp e wruns st =
                  (SetOutput (if rank_runs inp wruns = [] then None
                              else Some (head_sha (last (rank_runs inp wruns)))), st') \<and>
                Warning (unable (length (rank_runs inp wruns))) \<in> set (logs st'))"
proof -
  let ?runs = "rank_runs inp wruns"
  let ?s0 = "start (length ?runs) st"
  have h: "effective_history e ?s0 = []"
    using empty_history_cases [OF assms(2)] by simp
  have inv: "\<forall>n. \<exists>st1. scan inp e (take n ?runs) ?s0 = Completed st1 \<and> sha st1 = None"
    using scan_take_unverified [OF assms(1) h] by simp
  from scan_unverified [OF assms(1) h, of ?runs] obtain st1 where st1:
    "scan inp e ?runs ?s0 = Completed st1" "sha st1 = sha ?s0"
    "lastSha st1 = (if ?runs = [] then lastSha ?s0 else Some (head_sha (last ?runs)))"
    by blast
  from st1(2) have none: "sha st1 = None" by simp
  let ?st' = "(warning (unable (length ?runs)) st1)\<lparr>sha := lastSha st1\<rparr>"
  have w: "Warning (unable (length ?runs)) \<in> set (logs ?st')" by (simp add: warning_def)
  have "\<exists>st'. run_body inp e wruns st =
                  (SetOutput (if ?runs = [] then None else Some (head_sha (last ?runs))), st') \<and>
                Warning (unable (length ?runs)) \<in> set (logs st')"
  proof (cases "?runs = []")
    case False
    from run_body_fallback [OF st1(1) none False] st1(3) False w show ?thesis by simp
  next
    case True
    then show ?thesis
      by (simp add: run_body_def Let_def falsy_opt_def warning_def)
  qed
  with inv show ?thesis by blast
qed

theorem empty_history_always_falls_back_witness:
  "verify main_verify \<and> repoShas init_state = None \<and>
   execAsync env_fails (exec_calls init_state) = Inl ''not a git repository'' \<and>
   rank_runs main_verify [run_c, run_a, run_b] = [run_b, run_c] \<and>
   (\<exists>st1. scan main_verify env_fails [run_b] (start 2 init_state) = Completed st1 \<and> sha st1 = None) \<and>
   (\<exists>st'. run_body main_verify env_fails [run_c, run_a, run_b] init_state =
            (SetOutput (Some ''c3''), st') \<and>
          Warning ''Unable to determine SHA of last successful commit (possibly outside the window of 2 runs). Using earliest SHA available.''
            \<in> set (logs st'))"
proof -
  have v: "verify main_verify" by (simp add: main_verify_def)
  have a: "repoShas init_state = None" by (simp add: init_state_def)
  have b: "execAsync env_fails (exec_calls init_state) = Inl ''not a git repository''"
    by (simp add: env_fails_def exec_fails_def)
  have r: "rank_runs main_verify [run_c, run_a, run_b] = [run_b, run_c]"
    by (simp add: rank_runs_def keep_def truthy_def compareFn_def main_verify_def
        run_a_def run_b_def run_c_def)
  have h: "repoShas init_state = Some [] \<or>
         (repoShas init_state = None \<and> (\<exists>m. execAsync env_fails (exec_calls init_state) = Inl m))"
    using a b by simp
  have u: "unable (Suc (Suc 0)) =
    ''Unable to determine SHA of last successful commit (possibly outside the window of 2 runs). Using earliest SHA available.''"
    by (simp add: unable_def show_nat.simps)
  have l: "head_sha run_c = ''c3''" by (simp add: run_c_def)
  have t: "take 1 [run_b, run_c] = [run_b]" by simp
  from empty_history_always_falls_back [OF v h, of "[run_c, run_a, run_b]"]
  have "(\<forall>n. \<exists>st1. scan main_verify env_fails (take n [run_b, run_c])
                        (start (Suc (Suc 0)) init_state) = Completed st1 \<and> sha st1 = None) \<and>
         (\<exists>st'. run_body main_verify env_fails [run_c, run_a, run_b] init_state =
                  (SetOutput (Some ''c3''), st') \<and>
                Warning (unable (Suc (Suc 0))) \<in> set (logs st'))"
    by (simp add: r l)
  then have "(\<exists>st1. scan main_verify env_fails (take 1 [run_b, run_c])
                        (start (Suc (Suc 0)) init_state) = Completed st1 \<and> sha st1 = None) \<and>
         (\<exists>st'. run_body main_verify env_fails [run_c, run_a, run_b] init_state =
                  (SetOutput (Some ''c3''), st') \<and>
                Warning (unable (Suc (Suc 0))) \<in> set (logs st'))"
    by blast
  with v a b r show ?thesis
    unfolding u t by (simp add: numeral_2_eq_2)
qed

text \<open>
  C10: every ranked run satisfies the branch filter, so the branch re-check of the loop
  body never skips a run, and the scan and the whole selection give the same result
  (outcome, state and messages) with the re-check removed.
\<close>

theorem branch_recheck_redundant:
  "(\<forall>r \<in> set (rank_runs inp wruns).
       \<not> (truthy (branch inp) \<and> head_branch r \<noteq> Some (branch inp))) \<and>
   scan_no_recheck inp e (rank_runs inp wruns) st = scan inp e (rank_runs inp wruns) st \<and>
   run_body_no_recheck inp e wruns st = run_body inp e wruns st"
proof -
  have b: "\<forall>r \<in> set (rank_runs inp wruns).
       \<not> (truthy (branch inp) \<and> head_branch r \<noteq> Some (branch inp))"
    using rank_runs_branch by blast
  then have s: "scan_no_recheck inp e (rank_runs inp wruns) st' = scan inp e (rank_runs inp wruns) st'"
    for st' by (rule scan_no_recheck_eq)
  have "run_body_no_recheck inp e wruns st = run_body inp e wruns st"
    by (simp add: run_body_no_recheck_def run_body_def Let_def s)
  with b s show ?thesis by blast
qed

theorem branch_recheck_redundant_witness:
  "rank_runs main_verify [run_c, run_a\<lparr>head_branch := Some ''dev''\<rparr>, run_b] = [run_b, run_c] \<and>
   \<not> (truthy (branch main_verify) \<and> head_branch run_b \<noteq> Some (branch main_verify)) \<and>
   scan_no_recheck main_verify env_ok [run_b, run_c] init_state =
     scan main_verify env_ok [run_b, run_c] init_state \<and>
   run_body_no_recheck main_verify env_ok [run_c, run_a\<lparr>head_branch := Some ''dev''\<rparr>, run_b] init_state =
     run_body main_verify env_ok [run_c, run_a\<lparr>head_branch := Some ''dev''\<rparr>, run_b] init_state"
proof -
  have r: "rank_runs main_verify [run_c, run_a\<lparr>head_branch := Some ''dev''\<rparr>, run_b] = [run_b, run_c]"
    by (simp add: rank_runs_def keep_def truthy_def compareFn_def main_verify_def
        run_a_def run_b_def run_c_def)
  from branch_recheck_redundant [of main_verify "[run_c, run_a\<lparr>head_branch := Some ''dev''\<rparr>, run_b]"
      env_ok init_state]
  show ?thesis by (simp add: r)
qed

end
